theory Spec2Isabelle
  imports Main
begin

section \<open>Geometry\<close>

text \<open>
  A standard cell is a shapely polygon built from the four corners of an axis-aligned
  rectangle, always in the order lower-left, lower-right, upper-right, upper-left
  (lines 162 to 191 of the source). Such a polygon is determined by its \<open>bounds\<close>, and
  two of them are equal as shapely geometries exactly when their bounds are equal, so a
  cell is the record of its bounds. The coordinates of the program are floats that hold
  integers; on integers of this size float addition, subtraction and comparison are exact,
  so a coordinate is an \<open>int\<close>.
\<close>

record cell =
  minx :: int
  miny :: int
  maxx :: int
  maxy :: int

type_synonym bounds = "int \<times> int \<times> int \<times> int"

definition bounds :: "cell \<Rightarrow> bounds" where
  "bounds c = (minx c, miny c, maxx c, maxy c)"

definition rect :: "int \<Rightarrow> int \<Rightarrow> int \<Rightarrow> int \<Rightarrow> cell" where
  "rect x1 y1 x2 y2 = \<lparr>minx = x1, miny = y1, maxx = x2, maxy = y2\<rparr>"

text \<open>\<open>affinity.translate\<close>: a rigid move of every vertex.\<close>

definition translate :: "cell \<Rightarrow> int \<Rightarrow> int \<Rightarrow> cell" where
  "translate c dx dy =
     \<lparr>minx = minx c + dx, miny = miny c + dy, maxx = maxx c + dx, maxy = maxy c + dy\<rparr>"

text \<open>
  \<open>intersects\<close> of two closed rectangles: they share a point, a common edge or corner
  included.
\<close>

definition intersects :: "cell \<Rightarrow> cell \<Rightarrow> bool" where
  "intersects a b \<longleftrightarrow>
     minx a \<le> maxx b \<and> minx b \<le> maxx a \<and> miny a \<le> maxy b \<and> miny b \<le> maxy a"

text \<open>
  The block boundary is a polygon that the program only ever asks one question:
  \<open>block_boundary.contains(cell)\<close>. A polygon is therefore its containment test.
\<close>

type_synonym polygon = "cell \<Rightarrow> bool"

definition contains :: "polygon \<Rightarrow> cell \<Rightarrow> bool" where
  "contains p c = p c"

text \<open>A rectangular polygon with corners \<open>(x1, y1)\<close> and \<open>(x2, y2)\<close>.\<close>

definition rect_polygon :: "int \<Rightarrow> int \<Rightarrow> int \<Rightarrow> int \<Rightarrow> polygon" where
  "rect_polygon x1 y1 x2 y2 c \<longleftrightarrow>
     x1 \<le> minx c \<and> maxx c \<le> x2 \<and> y1 \<le> miny c \<and> maxy c \<le> y2"

text \<open>
  The polygon of \<open>BLOCK_COORDS\<close> (lines 7 and 8): the rectangle from \<open>(0, 0)\<close> to
  \<open>(1000, 2000)\<close> without the notch \<open>x < 100, y > 1000\<close> on its left and without the
  notch \<open>400 < x < 800, y > 1500\<close> on its top. A rectangle of positive area lies in it
  when it lies in the outer rectangle and its interior meets neither notch.
\<close>

definition block_boundary :: polygon where
  "block_boundary c \<longleftrightarrow>
     0 \<le> minx c \<and> maxx c \<le> 1000 \<and> 0 \<le> miny c \<and> maxy c \<le> 2000 \<and>
     \<not> (minx c < 100 \<and> 1000 < maxy c) \<and>
     \<not> (minx c < 800 \<and> 400 < maxx c \<and> 1500 < maxy c)"

definition GRID_HEIGHT :: int where
  "GRID_HEIGHT = 20"

section \<open>Grid snapping\<close>

text \<open>
  \<open>ZeroDivisionError\<close> is what \<open>minx / grid_size\<close> raises for a quantum of zero.
  \<open>DanglingReference\<close> belongs to the heap of list objects further down: a reference to
  no object, which a Python program cannot hold.
\<close>

datatype error = ZeroDivisionError | DanglingReference

text \<open>
  Python's \<open>round(a / q)\<close> for integers \<open>a\<close> and \<open>q \<noteq> 0\<close>: the nearest integer, a half
  going to the even neighbour.
\<close>

definition py_round_div :: "int \<Rightarrow> int \<Rightarrow> int" where
  "py_round_div a q =
     (let n = (if q < 0 then - a else a); d = \<bar>q\<bar>; f = n div d; r = n mod d
      in if 2 * r < d then f
         else if d < 2 * r then f + 1
         else if even f then f else f + 1)"

definition snap_to_grid :: "cell \<Rightarrow> int \<Rightarrow> error + cell" where
  "snap_to_grid polygon grid_size =
     (if grid_size = 0 then Inl ZeroDivisionError
      else
        let dx = py_round_div (minx polygon) grid_size * grid_size - minx polygon;
            dy = py_round_div (miny polygon) grid_size * grid_size - miny polygon
        in Inr (translate polygon dx dy))"

section \<open>Predicates of the legalizer\<close>

definition is_inside_block :: "cell \<Rightarrow> polygon \<Rightarrow> bool" where
  "is_inside_block c block = contains block c"

fun has_overlap :: "cell \<Rightarrow> cell list \<Rightarrow> bool" where
  "has_overlap c [] = False"
| "has_overlap c (other # cells) =
     (if other \<noteq> c \<and> intersects c other then True else has_overlap c cells)"

definition overlap_with_boundary :: "cell \<Rightarrow> polygon \<Rightarrow> bool" where
  "overlap_with_boundary c block = (\<not> contains block c)"

section \<open>Displacement\<close>

text \<open>A cost is a number or \<open>float("inf")\<close>.\<close>

datatype cost = Finite int | Infinity

fun cost_min :: "cost \<Rightarrow> cost \<Rightarrow> cost" where
  "cost_min Infinity c = c"
| "cost_min c Infinity = c"
| "cost_min (Finite a) (Finite b) = Finite (min a b)"

fun cost_less :: "cost \<Rightarrow> cost \<Rightarrow> bool" where
  "cost_less (Finite a) (Finite b) = (a < b)"
| "cost_less (Finite a) Infinity = True"
| "cost_less Infinity c = False"

text \<open>\<open>x - d < 0\<close> and \<open>x + d > limit\<close> for a cost \<open>d\<close>; both hold when \<open>d\<close> is infinite.\<close>

fun below_zero :: "int \<Rightarrow> cost \<Rightarrow> bool" where
  "below_zero x (Finite d) = (x - d < 0)"
| "below_zero x Infinity = True"

fun above :: "int \<Rightarrow> cost \<Rightarrow> int \<Rightarrow> bool" where
  "above x (Finite d) limit = (limit < x + d)"
| "above x Infinity limit = True"

datatype direction = Left | Right | Up | Down

text \<open>The dictionary \<open>directions\<close>: its four keys are fixed, so it is a record.\<close>

record directions =
  left :: cost
  right :: cost
  up :: cost
  down :: cost

fun get :: "directions \<Rightarrow> direction \<Rightarrow> cost" where
  "get d Left = left d"
| "get d Right = right d"
| "get d Up = up d"
| "get d Down = down d"

text \<open>Lines 40 to 46: one turn of the scan over the other cells.\<close>

definition scan_other :: "cell \<Rightarrow> int \<Rightarrow> directions \<Rightarrow> cell \<Rightarrow> directions" where
  "scan_other c grid_size d other =
     (if other \<noteq> c \<and> intersects c other then
        \<lparr>left = cost_min (left d) (Finite (maxx c - minx other + grid_size)),
         right = cost_min (right d) (Finite (maxx other - minx c + grid_size)),
         up = cost_min (up d) (Finite (maxy other - miny c + grid_size)),
         down = cost_min (down d) (Finite (maxy c - miny other + grid_size))\<rparr>
      else d)"

text \<open>Lines 49 to 56: the four checks against the extent, in the source's order.\<close>

definition clip_to_extent :: "cell \<Rightarrow> directions \<Rightarrow> directions" where
  "clip_to_extent c d =
     (let d1 = (if below_zero (minx c) (left d) then d\<lparr>left := Infinity\<rparr> else d);
          d2 = (if above (maxx c) (right d1) 1000 then d1\<lparr>right := Infinity\<rparr> else d1);
          d3 = (if below_zero (miny c) (down d2) then d2\<lparr>down := Infinity\<rparr> else d2);
          d4 = (if above (maxy c) (up d3) 2000 then d3\<lparr>up := Infinity\<rparr> else d3)
      in d4)"

text \<open>
  Line 59, \<open>min(directions, key=directions.get)\<close>: the keys are visited in insertion order
  (left, right, up, down) and a later key replaces the best one only when its cost is
  strictly smaller.
\<close>

definition min_key :: "directions \<Rightarrow> direction" where
  "min_key d =
     foldl (\<lambda>best k. if cost_less (get d k) (get d best) then k else best)
       Left [Right, Up, Down]"

definition compute_displacement ::
  "cell \<Rightarrow> polygon \<Rightarrow> cell list \<Rightarrow> int \<Rightarrow> direction \<times> cost" where
  "compute_displacement c block cells grid_size =
     (let start = \<lparr>left = Infinity, right = Infinity, up = Infinity, down = Infinity\<rparr>;
          scanned = foldl (scan_other c grid_size) start cells;
          clipped = clip_to_extent c scanned;
          best_move = min_key clipped
      in (best_move, get clipped best_move))"

section \<open>Resolving overlaps\<close>

text \<open>Lines 81 to 88: the move in the chosen direction.\<close>

fun move :: "cell \<Rightarrow> direction \<Rightarrow> int \<Rightarrow> cell" where
  "move c Left displacement = translate c (- displacement) 0"
| "move c Right displacement = translate c displacement 0"
| "move c Up displacement = translate c 0 displacement"
| "move c Down displacement = translate c 0 (- displacement)"

text \<open>
  The three ways the while loop of a cell ends: its condition is false (\<open>Resolved\<close>), the
  \<open>break\<close> of line 73 (\<open>Stuck\<close>), the \<open>break\<close> of line 77 or of line 93 (\<open>Reverted\<close>).
\<close>

datatype outcome = Resolved | Stuck | Reverted

type_synonym seen_positions = "(bounds \<times> direction) set"

datatype step =
  Continue "cell list" cell seen_positions
| Exit outcome "cell list"

text \<open>
  One evaluation of the loop condition of line 70 and, where it holds, one run of the
  loop body (lines 71 to 95), on the list \<open>updated_cells\<close>, the local \<open>cell\<close> and the
  memo set.
\<close>

definition loop_body ::
  "polygon \<Rightarrow> int \<Rightarrow> nat \<Rightarrow> cell \<Rightarrow> cell list \<Rightarrow> cell \<Rightarrow> seen_positions \<Rightarrow> step" where
  "loop_body block grid_size i original_cell updated_cells c seen =
     (if has_overlap c updated_cells \<or> overlap_with_boundary c block then
        (case compute_displacement c block updated_cells grid_size of
           (best_move, Infinity) \<Rightarrow> Exit Stuck updated_cells
         | (best_move, Finite displacement) \<Rightarrow>
             if (bounds c, best_move) \<in> seen
             then Exit Reverted (updated_cells[i := original_cell])
             else
               let seen' = insert (bounds c, best_move) seen;
                   c' = move c best_move displacement
               in if \<not> is_inside_block c' block
                  then Exit Reverted (updated_cells[i := original_cell])
                  else Continue (updated_cells[i := c']) c' seen')
      else Exit Resolved updated_cells)"

text \<open>
  The while loop of lines 70 to 95. It ends on every input: see \<open>loop_measure\<close> below.
\<close>

function resolve_loop ::
  "polygon \<Rightarrow> int \<Rightarrow> nat \<Rightarrow> cell \<Rightarrow> cell list \<Rightarrow> cell \<Rightarrow> seen_positions
     \<Rightarrow> outcome \<times> cell list" where
  "resolve_loop block grid_size i original_cell updated_cells c seen =
     (case loop_body block grid_size i original_cell updated_cells c seen of
        Exit how cells \<Rightarrow> (how, cells)
      | Continue updated_cells' c' seen' \<Rightarrow>
          resolve_loop block grid_size i original_cell updated_cells' c' seen')"
  by pat_completeness auto

subsection \<open>The pass over the cells\<close>

text \<open>
  The body of the for loop of line 66 for the index \<open>i\<close>: \<open>cell\<close> and \<open>original_cell\<close>
  start as \<open>updated_cells[i]\<close>, the memo set starts empty.
\<close>

definition resolve_cell :: "polygon \<Rightarrow> int \<Rightarrow> cell list \<Rightarrow> nat \<Rightarrow> outcome \<times> cell list" where
  "resolve_cell block grid_size updated_cells i =
     resolve_loop block grid_size i (updated_cells ! i) updated_cells (updated_cells ! i) {}"

fun resolve_each :: "polygon \<Rightarrow> int \<Rightarrow> cell list \<Rightarrow> nat list \<Rightarrow> cell list" where
  "resolve_each block grid_size updated_cells [] = updated_cells"
| "resolve_each block grid_size updated_cells (i # rest) =
     resolve_each block grid_size (snd (resolve_cell block grid_size updated_cells i)) rest"

text \<open>Line 64: the list comprehension stops at the first cell whose snapping raises.\<close>

fun snap_all :: "cell list \<Rightarrow> int \<Rightarrow> error + cell list" where
  "snap_all [] grid_size = Inr []"
| "snap_all (c # cells) grid_size =
     (case snap_to_grid c grid_size of
        Inl e \<Rightarrow> Inl e
      | Inr c' \<Rightarrow>
          (case snap_all cells grid_size of
             Inl e \<Rightarrow> Inl e
           | Inr cells' \<Rightarrow> Inr (c' # cells')))"

definition resolve_overlaps :: "cell list \<Rightarrow> polygon \<Rightarrow> int \<Rightarrow> error + cell list" where
  "resolve_overlaps cells block grid_size =
     (case snap_all cells grid_size of
        Inl e \<Rightarrow> Inl e
      | Inr updated_cells \<Rightarrow>
          Inr (resolve_each block grid_size updated_cells [0..<length updated_cells]))"

text \<open>
  How the while loop of the cell at index \<open>i\<close> ends, in the pass that starts from the
  snapped list: the cells before \<open>i\<close> have been processed when its turn comes.
\<close>

definition outcome_at :: "polygon \<Rightarrow> int \<Rightarrow> cell list \<Rightarrow> nat \<Rightarrow> outcome" where
  "outcome_at block grid_size snapped i =
     fst (resolve_cell block grid_size (resolve_each block grid_size snapped [0..<i]) i)"

subsection \<open>The while loop with a budget\<close>

text \<open>
  The while loop with a budget of evaluations of its condition: \<open>None\<close> when the budget
  runs out before the loop ends.
\<close>

fun run_loop ::
  "nat \<Rightarrow> polygon \<Rightarrow> int \<Rightarrow> nat \<Rightarrow> cell \<Rightarrow> cell list \<Rightarrow> cell \<Rightarrow> seen_positions
     \<Rightarrow> (outcome \<times> cell list) option" where
  "run_loop 0 block grid_size i original_cell updated_cells c seen = None"
| "run_loop (Suc n) block grid_size i original_cell updated_cells c seen =
     (case loop_body block grid_size i original_cell updated_cells c seen of
        Exit how cells \<Rightarrow> Some (how, cells)
      | Continue updated_cells' c' seen' \<Rightarrow>
          run_loop n block grid_size i original_cell updated_cells' c' seen')"

section \<open>Notions of the specification\<close>

text \<open>The invariant of the specification: all four bounds are multiples of the quantum.\<close>

definition on_grid :: "int \<Rightarrow> cell \<Rightarrow> bool" where
  "on_grid q c \<longleftrightarrow> q dvd minx c \<and> q dvd miny c \<and> q dvd maxx c \<and> q dvd maxy c"

text \<open>
  The other rectangles that intersect the subject rectangle, and the least separation
  cost over them in each direction (infinite when there is none).
\<close>

definition overlapping :: "cell \<Rightarrow> cell list \<Rightarrow> cell set" where
  "overlapping c cells = {other \<in> set cells. other \<noteq> c \<and> intersects c other}"

definition least_cost :: "int set \<Rightarrow> cost" where
  "least_cost S = (if S = {} then Infinity else Finite (Min S))"

fun separation :: "cell \<Rightarrow> cell list \<Rightarrow> int \<Rightarrow> direction \<Rightarrow> cost" where
  "separation c cells q Left = least_cost ((\<lambda>other. maxx c - minx other + q) ` overlapping c cells)"
| "separation c cells q Right = least_cost ((\<lambda>other. maxx other - minx c + q) ` overlapping c cells)"
| "separation c cells q Down = least_cost ((\<lambda>other. maxy c - miny other + q) ` overlapping c cells)"
| "separation c cells q Up = least_cost ((\<lambda>other. maxy other - miny c + q) ` overlapping c cells)"

text \<open>The rectangle lies in the reference extent, the box from (0, 0) to (1000, 2000).\<close>

definition within_extent :: "cell \<Rightarrow> bool" where
  "within_extent c \<longleftrightarrow> 0 \<le> minx c \<and> maxx c \<le> 1000 \<and> 0 \<le> miny c \<and> maxy c \<le> 2000"

text \<open>
  The specification's test on a direction: the position that the move by the cost
  reaches is not inside the reference extent. With it, the cost the specification gives
  to a direction.
\<close>

fun leaves_extent :: "cell \<Rightarrow> direction \<Rightarrow> cost \<Rightarrow> bool" where
  "leaves_extent c dir Infinity = True"
| "leaves_extent c dir (Finite k) = (\<not> within_extent (move c dir k))"

definition claimed_cost :: "cell \<Rightarrow> cell list \<Rightarrow> int \<Rightarrow> direction \<Rightarrow> cost" where
  "claimed_cost c cells q dir =
     (if leaves_extent c dir (separation c cells q dir) then Infinity
      else separation c cells q dir)"

text \<open>
  The narrower test: of the position that the move reaches, only the edge on the side the
  move goes to is compared with the extent (left: \<open>x1 - cost < 0\<close>, right:
  \<open>x2 + cost > 1000\<close>, down: \<open>y1 - cost < 0\<close>, up: \<open>y2 + cost > 2000\<close>). With it, the
  cost of a direction.
\<close>

fun past_edge :: "cell \<Rightarrow> direction \<Rightarrow> cost \<Rightarrow> bool" where
  "past_edge c dir Infinity = True"
| "past_edge c Left (Finite k) = (minx (move c Left k) < 0)"
| "past_edge c Right (Finite k) = (1000 < maxx (move c Right k))"
| "past_edge c Down (Finite k) = (miny (move c Down k) < 0)"
| "past_edge c Up (Finite k) = (2000 < maxy (move c Up k))"

definition edge_cost :: "cell \<Rightarrow> cell list \<Rightarrow> int \<Rightarrow> direction \<Rightarrow> cost" where
  "edge_cost c cells q dir =
     (if past_edge c dir (separation c cells q dir) then Infinity
      else separation c cells q dir)"

section \<open>List objects\<close>

text \<open>
  Python lists are objects with an identity. A heap maps references to the list objects
  that exist; the cells in them are immutable geometries (\<open>affinity.translate\<close> returns a
  new one), so a list object is the only thing a write can change.
\<close>

type_synonym ref = nat

record heap =
  objects :: "ref \<Rightarrow> cell list option"
  next_ref :: ref

definition alloc :: "heap \<Rightarrow> cell list \<Rightarrow> heap \<times> ref" where
  "alloc h xs = (h\<lparr>objects := (objects h)(next_ref h \<mapsto> xs), next_ref := Suc (next_ref h)\<rparr>,
                 next_ref h)"

definition store_list :: "heap \<Rightarrow> ref \<Rightarrow> cell list \<Rightarrow> heap" where
  "store_list h r xs = h\<lparr>objects := (objects h)(r \<mapsto> xs)\<rparr>"

text \<open>Every list object that exists lies below the next reference to be handed out.\<close>

definition heap_ok :: "heap \<Rightarrow> bool" where
  "heap_ok h \<longleftrightarrow> (\<forall>r. objects h r \<noteq> None \<longrightarrow> r < next_ref h)"

text \<open>
  \<open>resolve_overlaps\<close> on the heap. The list comprehension of line 64 builds a new list
  object, \<open>updated_cells\<close>; the writes of lines 76, 92 and 95 all go to that object, which
  after the for loop holds what \<open>resolve_each\<close> computes; line 97 returns its reference.
  The parameter \<open>cells\<close> is only read.
\<close>

definition resolve_overlaps_heap ::
  "heap \<Rightarrow> ref \<Rightarrow> polygon \<Rightarrow> int \<Rightarrow> error + heap \<times> ref" where
  "resolve_overlaps_heap h cells block grid_size =
     (case objects h cells of
        None \<Rightarrow> Inl DanglingReference
      | Some cs \<Rightarrow>
          (case snap_all cs grid_size of
             Inl e \<Rightarrow> Inl e
           | Inr snapped \<Rightarrow>
               let (h1, updated_cells) = alloc h snapped;
                   h2 = store_list h1 updated_cells
                          (resolve_each block grid_size snapped [0..<length snapped])
               in Inr (h2, updated_cells)))"

text \<open>
  A caller that holds the first two cells of the program's list (lines 162 and 163) in
  the list object 0, and the heap after the call.
\<close>

definition caller_heap :: heap where
  "caller_heap =
     \<lparr>objects = Map.empty(0 \<mapsto> [rect 50 50 150 90, rect 140 60 260 120]), next_ref = 1\<rparr>"

definition heap_after :: heap where
  "heap_after =
     \<lparr>objects = Map.empty(0 \<mapsto> [rect 50 50 150 90, rect 140 60 260 120],
                           1 \<mapsto> [rect 20 40 120 80, rect 140 60 260 120]),
      next_ref = 2\<rparr>"

section \<open>Termination of the while loop\<close>

text \<open>
  While the loop runs, the cell intersects one of the cells at the other indices, which
  do not move. The positions where a rectangle of the cell's width and height touches one
  of them are finitely many; each turn of the loop puts a new pair of such a position
  and a direction into the memo set.
\<close>

definition others_at :: "cell list \<Rightarrow> nat \<Rightarrow> cell set" where
  "others_at ucs i = {ucs ! j | j. j < length ucs \<and> j \<noteq> i}"

definition near :: "cell \<Rightarrow> cell set \<Rightarrow> bounds set" where
  "near c others =
     (\<Union>other\<in>others.
        (\<lambda>(x, y). (x, y, x + (maxx c - minx c), y + (maxy c - miny c))) `
          ({minx other - (maxx c - minx c)..maxx other} \<times>
           {miny other - (maxy c - miny c)..maxy other}))"

definition unseen ::
  "cell list \<Rightarrow> nat \<Rightarrow> cell \<Rightarrow> seen_positions \<Rightarrow> (bounds \<times> direction) set" where
  "unseen ucs i c seen = (near c (others_at ucs i) \<times> UNIV) - seen"

text \<open>
  The second summand pays for the one turn after which \<open>updated_cells[i]\<close> is the local
  \<open>cell\<close>, from a state where it is not (the program never starts there).
\<close>

definition loop_measure :: "cell list \<Rightarrow> nat \<Rightarrow> cell \<Rightarrow> seen_positions \<Rightarrow> nat" where
  "loop_measure ucs i c seen =
     card (unseen ucs i c seen) +
     (if i < length ucs \<and> ucs ! i \<noteq> c then Suc (card (unseen ucs i c {})) else 0)"

lemma has_overlap_iff:
  "has_overlap c cells \<longleftrightarrow> (\<exists>other\<in>set cells. other \<noteq> c \<and> intersects c other)"
  by (induction cells) auto

lemma scan_no_overlap: "\<not> has_overlap c cells \<Longrightarrow> foldl (scan_other c q) d cells = d"
  by (induction cells arbitrary: d) (auto simp: scan_other_def split: if_splits)

lemma compute_displacement_no_overlap:
  "\<not> has_overlap c cells \<Longrightarrow> compute_displacement c block cells q = (Left, Infinity)"
  by (simp add: compute_displacement_def scan_no_overlap clip_to_extent_def min_key_def)

lemma finite_others_at: "finite (others_at ucs i)"
  by (simp add: others_at_def)

lemma finite_near: "finite others \<Longrightarrow> finite (near c others)"
  by (simp add: near_def)

lemma finite_direction: "finite (UNIV :: direction set)"
proof -
  have eq: "(UNIV :: direction set) = {Left, Right, Up, Down}"
    using direction.exhaust by auto
  show ?thesis unfolding eq by simp
qed

lemma finite_unseen: "finite (unseen ucs i c seen)"
  by (simp add: unseen_def finite_near finite_others_at finite_direction)

lemma bounds_in_near:
  assumes "other \<in> others" "intersects c other"
  shows "bounds c \<in> near c others"
  unfolding near_def bounds_def using assms
  by (auto simp: intersects_def image_iff intro!: bexI[of _ other])

lemma move_size:
  "maxx (move c mv d) - minx (move c mv d) = maxx c - minx c"
  "maxy (move c mv d) - miny (move c mv d) = maxy c - miny c"
  by (cases mv; simp add: translate_def)+

lemma near_move: "near (move c mv d) others = near c others"
  by (simp add: near_def move_size)

lemma others_at_update: "others_at (ucs[i := x]) i = others_at ucs i"
  unfolding others_at_def
  by (auto simp: nth_list_update) (metis nth_list_update_neq)+

lemma loop_body_Continue:
  assumes "loop_body block q i orig ucs c seen = Continue ucs' c' seen'"
  shows "\<exists>mv d. has_overlap c ucs \<and> (bounds c, mv) \<notin> seen
           \<and> compute_displacement c block ucs q = (mv, Finite d)
           \<and> seen' = insert (bounds c, mv) seen
           \<and> c' = move c mv d \<and> ucs' = ucs[i := c'] \<and> is_inside_block c' block"
proof -
  obtain mv cst where cd: "compute_displacement c block ucs q = (mv, cst)"
    by (cases "compute_displacement c block ucs q")
  with assms obtain d where d: "cst = Finite d"
    by (cases cst) (auto simp: loop_body_def split: if_splits)
  have "has_overlap c ucs"
    using cd d compute_displacement_no_overlap[of c ucs block q] by auto
  with assms cd d show ?thesis
    by (auto simp: loop_body_def Let_def split: if_splits)
qed

lemma loop_measure_decreases:
  assumes "loop_body block q i orig ucs c seen = Continue ucs' c' seen'"
  shows "loop_measure ucs' i c' seen' < loop_measure ucs i c seen"
proof -
  from loop_body_Continue[OF assms] obtain mv d where
    ov: "has_overlap c ucs" and ns: "(bounds c, mv) \<notin> seen"
    and s': "seen' = insert (bounds c, mv) seen" and c': "c' = move c mv d"
    and u': "ucs' = ucs[i := c']" by blast
  have un: "unseen ucs' i c' s = unseen ucs i c s" for s
    by (simp add: unseen_def u' c' near_move others_at_update)
  have flag: "(if i < length ucs' \<and> ucs' ! i \<noteq> c' then a else b) = b" for a b :: nat
    by (auto simp: u')
  have sub: "unseen ucs i c seen' \<subseteq> unseen ucs i c seen"
    by (auto simp: unseen_def s')
  show ?thesis
  proof (cases "i < length ucs \<and> ucs ! i \<noteq> c")
    case True
    have "card (unseen ucs i c seen') \<le> card (unseen ucs i c {})"
      by (rule card_mono[OF finite_unseen]) (auto simp: unseen_def)
    then show ?thesis using True flag by (simp add: loop_measure_def un)
  next
    case False
    from ov obtain other where o: "other \<in> set ucs" "other \<noteq> c" "intersects c other"
      by (auto simp: has_overlap_iff)
    then obtain j where j: "j < length ucs" "ucs ! j = other"
      by (auto simp: in_set_conv_nth)
    with False o have "j \<noteq> i" by auto
    with j have "other \<in> others_at ucs i" by (auto simp: others_at_def)
    then have "bounds c \<in> near c (others_at ucs i)"
      using o(3) by (rule bounds_in_near)
    then have "(bounds c, mv) \<in> unseen ucs i c seen" "(bounds c, mv) \<notin> unseen ucs i c seen'"
      using ns by (auto simp: unseen_def s')
    with sub have "unseen ucs i c seen' \<subset> unseen ucs i c seen" by auto
    then have "card (unseen ucs i c seen') < card (unseen ucs i c seen)"
      by (rule psubset_card_mono[OF finite_unseen])
    then show ?thesis using False flag by (simp add: loop_measure_def un)
  qed
qed

termination resolve_loop
  by (relation "measure (\<lambda>(block, grid_size, i, original_cell, updated_cells, c, seen).
        loop_measure updated_cells i c seen)")
     (auto simp: loop_measure_decreases)

declare resolve_loop.simps [simp del]

section \<open>Properties of grid snapping\<close>

lemma py_round_div_multiple: "q \<noteq> 0 \<Longrightarrow> py_round_div (k * q) q = k"
proof (cases "q < 0")
  case True
  then have "- (k * q) = k * \<bar>q\<bar>" by simp
  with True show ?thesis by (simp add: py_round_div_def Let_def del: mult_minus_right)
next
  case False
  assume "q \<noteq> 0"
  with False have "k * q = k * \<bar>q\<bar>" "0 < \<bar>q\<bar>" by simp_all
  with False show ?thesis by (simp add: py_round_div_def Let_def)
qed

lemma translate_zero: "translate c 0 0 = c"
  by (simp add: translate_def)

lemma snap_to_grid_corner:
  assumes "snap_to_grid c q = Inr s"
  shows "minx s = py_round_div (minx c) q * q" "miny s = py_round_div (miny c) q * q"
    "maxx s - minx s = maxx c - minx c" "maxy s - miny s = maxy c - miny c" "q \<noteq> 0"
  using assms by (auto simp: snap_to_grid_def translate_def Let_def split: if_splits)

text \<open>
  C6. Grid snapping is idempotent: for a positive quantum \<open>q\<close>, snapping a rectangle
  returns a rectangle, and snapping that one again returns it unchanged.
\<close>

theorem snap_to_grid_idempotent:
  assumes "0 < q"
  shows "\<exists>s. snap_to_grid r q = Inr s \<and> snap_to_grid s q = Inr s"
proof -
  from assms obtain s where s: "snap_to_grid r q = Inr s"
    by (auto simp: snap_to_grid_def Let_def)
  from snap_to_grid_corner[OF s] assms have "snap_to_grid s q = Inr s"
    by (simp add: snap_to_grid_def py_round_div_multiple translate_zero)
  with s show ?thesis by blast
qed

theorem snap_to_grid_idempotent_witness:
  "(0::int) < 20 \<and> snap_to_grid (rect 50 1100 180 1160) 20 = Inr (rect 40 1100 170 1160)
     \<and> snap_to_grid (rect 40 1100 170 1160) 20 = Inr (rect 40 1100 170 1160)"
  using snap_to_grid_idempotent[of 20 "rect 50 1100 180 1160"]
  by (simp add: snap_to_grid_def py_round_div_def translate_def rect_def)

lemma snap_all_nth:
  "snap_all cells q = Inr ucs \<Longrightarrow>
     length ucs = length cells \<and> (\<forall>i<length cells. snap_to_grid (cells ! i) q = Inr (ucs ! i))"
proof (induction cells arbitrary: ucs)
  case Nil
  then show ?case by simp
next
  case (Cons c cells)
  then obtain c' cells' where *: "snap_to_grid c q = Inr c'" "snap_all cells q = Inr cells'"
    "ucs = c' # cells'"
    by (auto split: sum.splits)
  with Cons.IH[of cells'] show ?case by (auto simp: nth_Cons split: nat.splits)
qed

lemma snap_all_total: "q \<noteq> 0 \<Longrightarrow> \<exists>ucs. snap_all cells q = Inr ucs"
  by (induction cells) (auto simp: snap_to_grid_def Let_def)

text \<open>
  C7, as stated, fails: the cell \<open>(200, 540), (330, 600)\<close> of the program's own list
  (line 171) is snapped onto itself with \<open>GRID_HEIGHT = 20\<close>, and its right edge 330 is
  no multiple of 20.
\<close>

theorem snapped_corners_counterexample:
  "snap_all [rect 200 540 330 600] GRID_HEIGHT = Inr [rect 200 540 330 600]
     \<and> \<not> on_grid GRID_HEIGHT (rect 200 540 330 600)"
  by (simp add: snap_to_grid_def py_round_div_def translate_def rect_def GRID_HEIGHT_def
      on_grid_def)

text \<open>
  C7, amended. After the initial snapping step the lower-left corner \<open>(minx, miny)\<close> of
  every rectangle is a multiple of the quantum and its width and height are those of the
  input; so all four bounds are multiples exactly when the width and the height are.
\<close>

theorem snapped_lower_left_on_grid:
  assumes "snap_all cells q = Inr ucs" and "i < length cells"
  shows "q dvd minx (ucs ! i) \<and> q dvd miny (ucs ! i)
     \<and> maxx (ucs ! i) - minx (ucs ! i) = maxx (cells ! i) - minx (cells ! i)
     \<and> maxy (ucs ! i) - miny (ucs ! i) = maxy (cells ! i) - miny (cells ! i)
     \<and> on_grid q (ucs ! i) =
         (q dvd maxx (cells ! i) - minx (cells ! i) \<and> q dvd maxy (cells ! i) - miny (cells ! i))"
proof -
  from snap_all_nth[OF assms(1)] assms(2) have s: "snap_to_grid (cells ! i) q = Inr (ucs ! i)"
    by blast
  note c = snap_to_grid_corner[OF s]
  have x: "q dvd minx (ucs ! i)" and y: "q dvd miny (ucs ! i)"
    by (simp_all add: c(1,2))
  have d: "q dvd a \<longleftrightarrow> q dvd a - b" if "q dvd b" for a b :: int
    using that by (metis dvd_diff diff_add_cancel dvd_add)
  have "q dvd maxx (ucs ! i) \<longleftrightarrow> q dvd maxx (ucs ! i) - minx (ucs ! i)"
    using x by (rule d)
  moreover have "q dvd maxy (ucs ! i) \<longleftrightarrow> q dvd maxy (ucs ! i) - miny (ucs ! i)"
    using y by (rule d)
  ultimately show ?thesis using x y c(3,4) by (simp add: on_grid_def)
qed

theorem snapped_lower_left_on_grid_witness:
  "snap_all [rect 50 1100 180 1160] 20 = Inr [rect 40 1100 170 1160]
     \<and> (20::int) dvd minx (rect 40 1100 170 1160) \<and> (20::int) dvd miny (rect 40 1100 170 1160)
     \<and> \<not> on_grid 20 (rect 40 1100 170 1160)"
proof -
  have s: "snap_all [rect 50 1100 180 1160] 20 = Inr [rect 40 1100 170 1160]"
    by (simp add: snap_to_grid_def py_round_div_def translate_def rect_def)
  from snapped_lower_left_on_grid[OF s, of 0] s show ?thesis
    by (simp add: rect_def)
qed

section \<open>Cells without overlap\<close>

lemma resolve_cell_no_overlap:
  assumes "\<not> has_overlap (ucs ! i) ucs"
  shows "resolve_cell block q ucs i =
           (if contains block (ucs ! i) then (Resolved, ucs) else (Stuck, ucs))"
  using assms
  by (simp add: resolve_cell_def resolve_loop.simps loop_body_def overlap_with_boundary_def
      compute_displacement_no_overlap)



lemma has_overlap_removeAll: "has_overlap c cells = has_overlap c (removeAll c cells)"
  by (induction cells) auto

lemma scan_removeAll:
  "foldl (scan_other c q) d cells = foldl (scan_other c q) d (removeAll c cells)"
  by (induction cells arbitrary: d) (auto simp: scan_other_def)

section \<open>What a pass changes\<close>

text \<open>
  The while loop of the cell at index \<open>i\<close> writes to \<open>updated_cells[i]\<close> only, and what
  it leaves there depends on how it ends.
\<close>

lemma loop_body_Exit:
  assumes "loop_body block q i orig ucs c seen = Exit how cells"
  shows "(how = Resolved \<and> cells = ucs \<and> \<not> has_overlap c ucs \<and> contains block c)
       \<or> (how = Stuck \<and> cells = ucs)
       \<or> (how = Reverted \<and> cells = ucs[i := orig])"
  using assms
  by (auto simp: loop_body_def overlap_with_boundary_def Let_def
      split: if_splits prod.splits cost.splits)

lemma resolve_loop_length:
  "length (snd (resolve_loop block q i orig ucs c seen)) = length ucs"
proof (induction block q i orig ucs c seen rule: resolve_loop.induct)
  case (1 block q i orig ucs c seen)
  show ?case
  proof (cases "loop_body block q i orig ucs c seen")
    case (Continue ucs' c' seen')
    from loop_body_Continue[OF this] have "length ucs' = length ucs" by auto
    with "1.IH"[OF Continue] Continue show ?thesis
      by (subst resolve_loop.simps) simp
  next
    case (Exit how cells)
    from loop_body_Exit[OF this] Exit show ?thesis
      by (subst resolve_loop.simps) auto
  qed
qed

lemma resolve_loop_other:
  "j \<noteq> i \<Longrightarrow> snd (resolve_loop block q i orig ucs c seen) ! j = ucs ! j"
proof (induction block q i orig ucs c seen rule: resolve_loop.induct)
  case (1 block q i orig ucs c seen)
  show ?case
  proof (cases "loop_body block q i orig ucs c seen")
    case (Continue ucs' c' seen')
    from loop_body_Continue[OF this] "1.prems" have "ucs' ! j = ucs ! j" by auto
    with "1.IH"[OF Continue "1.prems"] Continue show ?thesis
      by (subst resolve_loop.simps) simp
  next
    case (Exit how cells)
    from loop_body_Exit[OF this] Exit "1.prems" show ?thesis
      by (subst resolve_loop.simps) auto
  qed
qed

lemma resolve_loop_reverted:
  "i < length ucs \<Longrightarrow> fst (resolve_loop block q i orig ucs c seen) = Reverted \<Longrightarrow>
     snd (resolve_loop block q i orig ucs c seen) ! i = orig"
proof (induction block q i orig ucs c seen rule: resolve_loop.induct)
  case (1 block q i orig ucs c seen)
  show ?case
  proof (cases "loop_body block q i orig ucs c seen")
    case (Continue ucs' c' seen')
    from loop_body_Continue[OF this] "1.prems" have l: "i < length ucs'" by auto
    from "1.prems"(2) Continue
    have "fst (resolve_loop block q i orig ucs' c' seen') = Reverted"
      by (subst (asm) resolve_loop.simps) simp
    from "1.IH"[OF Continue l this] Continue show ?thesis
      by (subst resolve_loop.simps) simp
  next
    case (Exit how cells)
    with "1.prems"(2) have "how = Reverted"
      by (subst (asm) resolve_loop.simps) simp
    with loop_body_Exit[OF Exit] Exit "1.prems"(1) show ?thesis
      by (subst resolve_loop.simps) auto
  qed
qed

lemma resolve_loop_position:
  "i < length ucs \<Longrightarrow>
     snd (resolve_loop block q i orig ucs c seen) ! i = orig
   \<or> snd (resolve_loop block q i orig ucs c seen) ! i = ucs ! i
   \<or> contains block (snd (resolve_loop block q i orig ucs c seen) ! i)"
proof (induction block q i orig ucs c seen rule: resolve_loop.induct)
  case (1 block q i orig ucs c seen)
  show ?case
  proof (cases "loop_body block q i orig ucs c seen")
    case (Continue ucs' c' seen')
    from loop_body_Continue[OF this] "1.prems"
    have l: "i < length ucs'" and c: "ucs' ! i = c'" "contains block c'"
      by (auto simp: is_inside_block_def)
    have eq: "resolve_loop block q i orig ucs c seen = resolve_loop block q i orig ucs' c' seen'"
      using Continue by (subst resolve_loop.simps) simp
    from "1.IH"[OF Continue l] c show ?thesis
      unfolding eq by auto
  next
    case (Exit how cells)
    from loop_body_Exit[OF this] Exit "1.prems" show ?thesis
      by (subst (1 2 3) resolve_loop.simps) auto
  qed
qed

lemma resolve_loop_resolved:
  "i < length ucs \<Longrightarrow> ucs ! i = c \<Longrightarrow>
   fst (resolve_loop block q i orig ucs c seen) = Resolved \<Longrightarrow>
     \<not> has_overlap (snd (resolve_loop block q i orig ucs c seen) ! i)
         (snd (resolve_loop block q i orig ucs c seen))
   \<and> contains block (snd (resolve_loop block q i orig ucs c seen) ! i)"
proof (induction block q i orig ucs c seen rule: resolve_loop.induct)
  case (1 block q i orig ucs c seen)
  show ?case
  proof (cases "loop_body block q i orig ucs c seen")
    case (Continue ucs' c' seen')
    from loop_body_Continue[OF this] "1.prems"
    have l: "i < length ucs'" and c: "ucs' ! i = c'"
      by auto
    have eq: "resolve_loop block q i orig ucs c seen = resolve_loop block q i orig ucs' c' seen'"
      using Continue by (subst resolve_loop.simps) simp
    from "1.IH"[OF Continue l c] "1.prems"(3) show ?thesis
      unfolding eq by auto
  next
    case (Exit how cells)
    then have eq: "resolve_loop block q i orig ucs c seen = (how, cells)"
      by (subst resolve_loop.simps) simp
    with "1.prems"(3) have "how = Resolved" by simp
    with loop_body_Exit[OF Exit] "1.prems"(1,2) show ?thesis
      unfolding eq by auto
  qed
qed

lemma resolve_each_append:
  "resolve_each block q ucs (xs @ ys) = resolve_each block q (resolve_each block q ucs xs) ys"
  by (induction xs arbitrary: ucs) auto

lemma resolve_each_length: "length (resolve_each block q ucs idxs) = length ucs"
  by (induction idxs arbitrary: ucs) (auto simp: resolve_cell_def resolve_loop_length)

lemma resolve_each_other:
  "j \<notin> set idxs \<Longrightarrow> resolve_each block q ucs idxs ! j = ucs ! j"
  by (induction idxs arbitrary: ucs) (auto simp: resolve_cell_def resolve_loop_other)

lemma pass_split:
  assumes "i < length ucs"
  shows "resolve_each block q ucs [0..<length ucs] =
     resolve_each block q (snd (resolve_cell block q (resolve_each block q ucs [0..<i]) i))
       [Suc i..<length ucs]"
proof -
  from assms have "[0..<length ucs] = [0..<i] @ i # [Suc i..<length ucs]"
    by (metis le_add1 less_imp_add_positive upt_add_eq_append upt_conv_Cons plus_nat.add_0
        upt_rec)
  then show ?thesis by (simp add: resolve_each_append)
qed

section \<open>The returned list\<close>

lemma pass_at:
  assumes "i < length ucs"
  shows "resolve_each block q ucs [0..<length ucs] ! i
           = snd (resolve_cell block q (resolve_each block q ucs [0..<i]) i) ! i"
    and "resolve_each block q ucs [0..<i] ! i = ucs ! i"
    and "j < i \<Longrightarrow> resolve_each block q ucs [0..<length ucs] ! j
           = snd (resolve_cell block q (resolve_each block q ucs [0..<i]) i) ! j"
    and "i < j \<Longrightarrow> snd (resolve_cell block q (resolve_each block q ucs [0..<i]) i) ! j = ucs ! j"
  by (simp_all add: pass_split[OF assms] resolve_each_other resolve_cell_def resolve_loop_other)

lemma pass_resolved:
  assumes "i < length snapped" and "outcome_at block q snapped i = Resolved"
  shows "contains block (resolve_each block q snapped [0..<length snapped] ! i)"
    and "j < length snapped \<Longrightarrow>
         j < i \<or> resolve_each block q snapped [0..<length snapped] ! j = snapped ! j \<Longrightarrow>
           resolve_each block q snapped [0..<length snapped] ! j
             = resolve_each block q snapped [0..<length snapped] ! i
         \<or> \<not> intersects (resolve_each block q snapped [0..<length snapped] ! i)
               (resolve_each block q snapped [0..<length snapped] ! j)"
proof -
  let ?before = "resolve_each block q snapped [0..<i]"
  let ?after = "snd (resolve_cell block q ?before i)"
  let ?r = "resolve_each block q snapped [0..<length snapped]"
  have l: "i < length ?before" using assms(1) by (simp add: resolve_each_length)
  have la: "length ?after = length snapped"
    by (simp add: resolve_cell_def resolve_loop_length resolve_each_length)
  have "fst (resolve_loop block q i (?before ! i) ?before (?before ! i) {}) = Resolved"
    using assms(2) by (simp add: outcome_at_def resolve_cell_def)
  from resolve_loop_resolved[OF l refl this]
  have ov: "\<not> has_overlap (?after ! i) ?after" and inside: "contains block (?after ! i)"
    by (simp_all add: resolve_cell_def)
  have ri: "?r ! i = ?after ! i" by (rule pass_at(1)[OF assms(1)])
  show "contains block (?r ! i)" using inside by (simp only: ri)
  show "?r ! j = ?r ! i \<or> \<not> intersects (?r ! i) (?r ! j)"
    if j: "j < length snapped" and c: "j < i \<or> ?r ! j = snapped ! j"
  proof -
    have "?r ! j = ?after ! j"
    proof (cases "j < i")
      case True
      then show ?thesis by (rule pass_at(3)[OF assms(1)])
    next
      case False
      show ?thesis
      proof (cases "j = i")
        case True
        then show ?thesis by (simp add: ri)
      next
        case False
        with \<open>\<not> j < i\<close> have "i < j" by simp
        from pass_at(4)[OF assms(1) this] c \<open>\<not> j < i\<close> show ?thesis by simp
      qed
    qed
    moreover have "?after ! j \<in> set ?after"
      using j by (simp add: la)
    ultimately show ?thesis using ov by (auto simp: has_overlap_iff ri)
  qed
qed

lemma pass_reverted:
  assumes "i < length snapped" and "outcome_at block q snapped i = Reverted"
  shows "resolve_each block q snapped [0..<length snapped] ! i = snapped ! i"
proof -
  let ?before = "resolve_each block q snapped [0..<i]"
  have l: "i < length ?before" using assms(1) by (simp add: resolve_each_length)
  have "fst (resolve_loop block q i (?before ! i) ?before (?before ! i) {}) = Reverted"
    using assms(2) by (simp add: outcome_at_def resolve_cell_def)
  from resolve_loop_reverted[OF l this]
  have "snd (resolve_cell block q ?before i) ! i = snapped ! i"
    by (simp add: resolve_cell_def pass_at(2)[OF assms(1)])
  then show ?thesis by (simp add: pass_at(1)[OF assms(1)])
qed

lemma pass_position:
  assumes "i < length snapped"
  shows "contains block (resolve_each block q snapped [0..<length snapped] ! i)
     \<or> resolve_each block q snapped [0..<length snapped] ! i = snapped ! i"
proof -
  let ?before = "resolve_each block q snapped [0..<i]"
  have l: "i < length ?before" using assms by (simp add: resolve_each_length)
  from resolve_loop_position[OF l, of block q "?before ! i" "?before ! i" "{}"]
  have "contains block (snd (resolve_cell block q ?before i) ! i)
      \<or> snd (resolve_cell block q ?before i) ! i = snapped ! i"
    by (auto simp: resolve_cell_def pass_at(2)[OF assms])
  then show ?thesis by (simp only: pass_at(1)[OF assms])
qed

lemma resolve_overlaps_Inr:
  "snap_all cells q = Inr snapped \<Longrightarrow>
     resolve_overlaps cells block q = Inr (resolve_each block q snapped [0..<length snapped])"
  by (simp add: resolve_overlaps_def)

lemma intersects_sym: "intersects a b = intersects b a"
  by (auto simp: intersects_def)

lemma pass_resolved_clear:
  assumes "i < length snapped" and "outcome_at block q snapped i = Resolved"
    and "j < length snapped"
    and "j < i \<or> resolve_each block q snapped [0..<length snapped] ! j = snapped ! j
         \<or> outcome_at block q snapped j \<noteq> Stuck"
  shows "resolve_each block q snapped [0..<length snapped] ! j
           = resolve_each block q snapped [0..<length snapped] ! i
       \<or> \<not> intersects (resolve_each block q snapped [0..<length snapped] ! i)
             (resolve_each block q snapped [0..<length snapped] ! j)"
proof -
  let ?r = "resolve_each block q snapped [0..<length snapped]"
  show ?thesis
  proof (cases "j < i \<or> ?r ! j = snapped ! j")
    case True
    from pass_resolved(2)[OF assms(1,2,3) True] show ?thesis .
  next
    case False
    with assms(4) have ns: "outcome_at block q snapped j \<noteq> Stuck" and ij: "\<not> j < i"
      and moved: "?r ! j \<noteq> snapped ! j" by auto
    from moved pass_reverted[OF assms(3), of block q] have "outcome_at block q snapped j \<noteq> Reverted"
      by auto
    with ns have res: "outcome_at block q snapped j = Resolved"
      by (cases "outcome_at block q snapped j") auto
    show ?thesis
    proof (cases "i = j")
      case True
      then show ?thesis by simp
    next
      case False
      with ij have "i < j" by simp
      then have "i < j \<or> ?r ! i = snapped ! i" by simp
      from pass_resolved(2)[OF assms(3) res assms(1) this] show ?thesis
        by (auto simp: intersects_sym)
    qed
  qed
qed

lemma pass_unchanged:
  assumes "i < length snapped"
    and "\<forall>other\<in>set (resolve_each block q snapped [0..<i]).
           intersects (snapped ! i) other \<longrightarrow> other = snapped ! i"
  shows "resolve_each block q snapped [0..<length snapped] ! i = snapped ! i"
    and "\<not> has_overlap (snapped ! i) (resolve_each block q snapped [0..<i])"
proof -
  let ?before = "resolve_each block q snapped [0..<i]"
  have b: "?before ! i = snapped ! i" by (rule pass_at(2)[OF assms(1)])
  from assms(2) show ov: "\<not> has_overlap (snapped ! i) ?before"
    by (auto simp: has_overlap_iff)
  then have "snd (resolve_cell block q ?before i) = ?before"
    using resolve_cell_no_overlap[of ?before i block q] by (simp add: b)
  then show "resolve_each block q snapped [0..<length snapped] ! i = snapped ! i"
    by (simp add: pass_at(1)[OF assms(1)] b)
qed



text \<open>
  C1, as stated, fails. Three cells inside the block boundary, quantum 20: the second one
  moves left by 120 to get clear of the third, lands on the first, and there every
  direction has infinite cost, so its loop ends at the \<open>break\<close> of line 73. In the
  returned list it intersects the first cell and is not at its snapped position.
\<close>

theorem returned_cells_legal_counterexample:
  "snap_all [rect 0 0 190 1000, rect 200 0 1000 1000, rect 900 0 1000 1000] 20
     = Inr [rect 0 0 190 1000, rect 200 0 1000 1000, rect 900 0 1000 1000]
   \<and> resolve_overlaps [rect 0 0 190 1000, rect 200 0 1000 1000, rect 900 0 1000 1000]
        block_boundary 20
     = Inr [rect 0 0 190 1000, rect 80 0 880 1000, rect 900 0 1000 1000]
   \<and> intersects (rect 80 0 880 1000) (rect 0 0 190 1000)
   \<and> rect 80 0 880 1000 \<noteq> rect 200 0 1000 1000"
proof -
  have "resolve_overlaps [rect 0 0 190 1000, rect 200 0 1000 1000, rect 900 0 1000 1000]
        block_boundary 20
     = Inr [rect 0 0 190 1000, rect 80 0 880 1000, rect 900 0 1000 1000]"
    by code_simp
  then show ?thesis
    by (simp add: snap_to_grid_def py_round_div_def translate_def rect_def intersects_def)
qed

text \<open>
  C1, amended. When \<open>resolve_overlaps\<close> returns, the list has the length of the input and
  each rectangle in it either stands at its snapped position, or is contained in the
  boundary polygon and, unless its own while loop ended at the \<open>break\<close> of line 73 with all
  four costs infinite, intersects no rectangle of the list that was processed before it,
  that stands at its snapped position, or whose while loop did not end at that
  \<open>break\<close>, other than rectangles equal to itself.
\<close>

theorem returned_cells_inside_or_snapped:
  assumes "snap_all cells q = Inr snapped" and "i < length snapped"
  shows "\<exists>r. resolve_overlaps cells block q = Inr r \<and> length r = length cells
     \<and> (r ! i = snapped ! i
        \<or> contains block (r ! i)
          \<and> (outcome_at block q snapped i = Stuck
             \<or> (\<forall>j<length r.
                   (j < i \<or> r ! j = snapped ! j \<or> outcome_at block q snapped j \<noteq> Stuck) \<longrightarrow>
                     r ! j = r ! i \<or> \<not> intersects (r ! i) (r ! j))))"
proof -
  let ?r = "resolve_each block q snapped [0..<length snapped]"
  have len: "length ?r = length cells" and len': "length ?r = length snapped"
    using snap_all_nth[OF assms(1)] by (simp_all add: resolve_each_length)
  have "?r ! i = snapped ! i
        \<or> contains block (?r ! i)
          \<and> (outcome_at block q snapped i = Stuck
             \<or> (\<forall>j<length ?r.
                   (j < i \<or> ?r ! j = snapped ! j \<or> outcome_at block q snapped j \<noteq> Stuck) \<longrightarrow>
                     ?r ! j = ?r ! i \<or> \<not> intersects (?r ! i) (?r ! j)))"
  proof (cases "outcome_at block q snapped i")
    case Resolved
    from pass_resolved(1)[OF assms(2) Resolved] pass_resolved_clear[OF assms(2) Resolved]
    show ?thesis unfolding len' by blast
  next
    case Stuck
    with pass_position[OF assms(2), of block q] show ?thesis by auto
  next
    case Reverted
    from pass_reverted[OF assms(2) Reverted] show ?thesis by simp
  qed
  with len resolve_overlaps_Inr[OF assms(1), of block] show ?thesis by blast
qed

theorem returned_cells_inside_or_snapped_witness:
  "snap_all [rect 50 50 150 90, rect 140 60 260 120] 20
     = Inr [rect 40 40 140 80, rect 140 60 260 120]
   \<and> resolve_overlaps [rect 50 50 150 90, rect 140 60 260 120] block_boundary 20
     = Inr [rect 20 40 120 80, rect 140 60 260 120]
   \<and> rect 20 40 120 80 \<noteq> rect 40 40 140 80
   \<and> outcome_at block_boundary 20 [rect 40 40 140 80, rect 140 60 260 120] 0 = Resolved
   \<and> contains block_boundary (rect 20 40 120 80)
   \<and> \<not> intersects (rect 20 40 120 80) (rect 140 60 260 120)"
proof -
  have s: "snap_all [rect 50 50 150 90, rect 140 60 260 120] 20
     = Inr [rect 40 40 140 80, rect 140 60 260 120]"
    by (simp add: snap_to_grid_def py_round_div_def translate_def rect_def)
  have r: "resolve_overlaps [rect 50 50 150 90, rect 140 60 260 120] block_boundary 20
     = Inr [rect 20 40 120 80, rect 140 60 260 120]"
    by code_simp
  have o: "outcome_at block_boundary 20 [rect 40 40 140 80, rect 140 60 260 120] 0 = Resolved"
    by code_simp
  have ne: "rect 20 40 120 80 \<noteq> rect 40 40 140 80" by (simp add: rect_def)
  let ?snapped = "[rect 40 40 140 80, rect 140 60 260 120]"
  from returned_cells_inside_or_snapped[OF s, of 0 block_boundary]
  obtain r' where a: "resolve_overlaps [rect 50 50 150 90, rect 140 60 260 120] block_boundary 20
        = Inr r'"
    and b: "r' ! 0 = ?snapped ! 0
        \<or> contains block_boundary (r' ! 0)
          \<and> (outcome_at block_boundary 20 ?snapped 0 = Stuck
             \<or> (\<forall>j<length r'.
                   (j < 0 \<or> r' ! j = ?snapped ! j
                    \<or> outcome_at block_boundary 20 ?snapped j \<noteq> Stuck) \<longrightarrow>
                     r' ! j = r' ! 0 \<or> \<not> intersects (r' ! 0) (r' ! j)))"
    by auto
  from a r have r': "r' = [rect 20 40 120 80, rect 140 60 260 120]" by simp
  from b o ne have c: "contains block_boundary (r' ! 0)"
    and d: "\<forall>j<length r'.
                   (j < 0 \<or> r' ! j = ?snapped ! j
                    \<or> outcome_at block_boundary 20 ?snapped j \<noteq> Stuck) \<longrightarrow>
                     r' ! j = r' ! 0 \<or> \<not> intersects (r' ! 0) (r' ! j)"
    by (auto simp: r')
  from d[rule_format, of 1] have "\<not> intersects (rect 20 40 120 80) (rect 140 60 260 120)"
    by (simp add: r' rect_def)
  with c s r o ne show ?thesis by (simp add: r')
qed

text \<open>
  C2, as stated, fails on the same input: the loop of the first cell ends with its
  condition false before it has run once, the cell never moves, and the second cell is
  later left on top of it.
\<close>

theorem resolved_cell_legal_counterexample:
  "outcome_at block_boundary 20
      [rect 0 0 190 1000, rect 200 0 1000 1000, rect 900 0 1000 1000] 0 = Resolved
   \<and> resolve_overlaps [rect 0 0 190 1000, rect 200 0 1000 1000, rect 900 0 1000 1000]
        block_boundary 20
     = Inr [rect 0 0 190 1000, rect 80 0 880 1000, rect 900 0 1000 1000]
   \<and> intersects (rect 0 0 190 1000) (rect 80 0 880 1000)"
proof -
  have "outcome_at block_boundary 20
      [rect 0 0 190 1000, rect 200 0 1000 1000, rect 900 0 1000 1000] 0 = Resolved"
    by code_simp
  moreover have "resolve_overlaps [rect 0 0 190 1000, rect 200 0 1000 1000, rect 900 0 1000 1000]
        block_boundary 20
     = Inr [rect 0 0 190 1000, rect 80 0 880 1000, rect 900 0 1000 1000]"
    by code_simp
  ultimately show ?thesis by (simp add: rect_def intersects_def)
qed

text \<open>
  C2, amended. A rectangle whose while loop ends with its condition false is, in the
  returned list, contained in the boundary polygon, and intersects no rectangle of the
  list that was processed before it or that stands at its snapped position, other than
  rectangles equal to itself.
\<close>

theorem resolved_cell_clear_of_settled_cells:
  assumes "snap_all cells q = Inr snapped" and "i < length snapped"
    and "outcome_at block q snapped i = Resolved"
  shows "\<exists>r. resolve_overlaps cells block q = Inr r \<and> contains block (r ! i)
     \<and> (\<forall>j<length r. (j < i \<or> r ! j = snapped ! j) \<longrightarrow>
           r ! j = r ! i \<or> \<not> intersects (r ! i) (r ! j))"
proof -
  let ?r = "resolve_each block q snapped [0..<length snapped]"
  have "\<forall>j<length ?r. (j < i \<or> ?r ! j = snapped ! j) \<longrightarrow>
           ?r ! j = ?r ! i \<or> \<not> intersects (?r ! i) (?r ! j)"
    using pass_resolved(2)[OF assms(2,3)] by (simp add: resolve_each_length)
  with pass_resolved(1)[OF assms(2,3)] resolve_overlaps_Inr[OF assms(1), of block]
  show ?thesis by blast
qed

theorem resolved_cell_clear_of_settled_cells_witness:
  "snap_all [rect 400 0 600 1000, rect 500 0 700 1000, rect 100 0 300 1000] 20
     = Inr [rect 400 0 600 1000, rect 500 0 700 1000, rect 100 0 300 1000]
   \<and> outcome_at block_boundary 20
      [rect 400 0 600 1000, rect 500 0 700 1000, rect 100 0 300 1000] 1 = Resolved
   \<and> resolve_overlaps [rect 400 0 600 1000, rect 500 0 700 1000, rect 100 0 300 1000]
        block_boundary 20
     = Inr [rect 400 0 600 1000, rect 620 0 820 1000, rect 100 0 300 1000]
   \<and> contains block_boundary (rect 620 0 820 1000)
   \<and> \<not> intersects (rect 620 0 820 1000) (rect 400 0 600 1000)"
proof -
  have s: "snap_all [rect 400 0 600 1000, rect 500 0 700 1000, rect 100 0 300 1000] 20
     = Inr [rect 400 0 600 1000, rect 500 0 700 1000, rect 100 0 300 1000]"
    by (simp add: snap_to_grid_def py_round_div_def translate_def rect_def)
  have o: "outcome_at block_boundary 20
      [rect 400 0 600 1000, rect 500 0 700 1000, rect 100 0 300 1000] 1 = Resolved"
    by code_simp
  have r: "resolve_overlaps [rect 400 0 600 1000, rect 500 0 700 1000, rect 100 0 300 1000]
        block_boundary 20
     = Inr [rect 400 0 600 1000, rect 620 0 820 1000, rect 100 0 300 1000]"
    by code_simp
  from resolved_cell_clear_of_settled_cells[OF s _ o] s o r show ?thesis
    by (simp add: rect_def intersects_def contains_def block_boundary_def)
qed

text \<open>
  C10. \<open>has_overlap\<close> and \<open>compute_displacement\<close> leave out every cell that is equal to
  the subject cell, at whatever index it stands: removing all its copies from the list
  changes neither result. So a cell that, when its turn comes, is intersected by copies
  of itself only has no overlap for \<open>has_overlap\<close> and keeps its snapped position in the
  returned list, whatever happens to the other cells; two coincident cells of which this
  holds stay on top of each other.
\<close>

theorem coincident_cells_not_separated:
  assumes "snap_all cells q = Inr snapped"
  shows "has_overlap c others = has_overlap c (removeAll c others)
     \<and> compute_displacement c block others q = compute_displacement c block (removeAll c others) q
     \<and> (\<exists>r. resolve_overlaps cells block q = Inr r
          \<and> (\<forall>i<length snapped.
                (\<forall>other\<in>set (resolve_each block q snapped [0..<i]).
                    intersects (snapped ! i) other \<longrightarrow> other = snapped ! i)
                \<longrightarrow> \<not> has_overlap (snapped ! i) (resolve_each block q snapped [0..<i])
                    \<and> r ! i = snapped ! i))"
proof -
  have "compute_displacement c block others q
      = compute_displacement c block (removeAll c others) q"
    unfolding compute_displacement_def by (subst scan_removeAll) (rule refl)
  moreover have "\<forall>i<length snapped.
                (\<forall>other\<in>set (resolve_each block q snapped [0..<i]).
                    intersects (snapped ! i) other \<longrightarrow> other = snapped ! i)
                \<longrightarrow> \<not> has_overlap (snapped ! i) (resolve_each block q snapped [0..<i])
                    \<and> resolve_each block q snapped [0..<length snapped] ! i = snapped ! i"
    using pass_unchanged by blast
  ultimately show ?thesis
    using has_overlap_removeAll resolve_overlaps_Inr[OF assms, of block] by blast
qed

theorem coincident_cells_not_separated_witness:
  "snap_all [rect 100 100 200 200, rect 100 100 200 200, rect 400 0 600 1000, rect 500 0 700 1000] 20
      = Inr [rect 100 100 200 200, rect 100 100 200 200, rect 400 0 600 1000, rect 500 0 700 1000]
   \<and> resolve_each block_boundary 20
        [rect 100 100 200 200, rect 100 100 200 200, rect 400 0 600 1000, rect 500 0 700 1000]
        [0..<1]
      = [rect 100 100 200 200, rect 100 100 200 200, rect 400 0 600 1000, rect 500 0 700 1000]
   \<and> intersects (rect 100 100 200 200) (rect 100 100 200 200)
   \<and> \<not> has_overlap (rect 100 100 200 200)
        [rect 100 100 200 200, rect 100 100 200 200, rect 400 0 600 1000, rect 500 0 700 1000]
   \<and> resolve_overlaps
        [rect 100 100 200 200, rect 100 100 200 200, rect 400 0 600 1000, rect 500 0 700 1000]
        block_boundary 20
      = Inr [rect 100 100 200 200, rect 100 100 200 200, rect 280 0 480 1000, rect 500 0 700 1000]"
proof -
  let ?cells = "[rect 100 100 200 200, rect 100 100 200 200, rect 400 0 600 1000,
                 rect 500 0 700 1000]"
  have s: "snap_all ?cells 20 = Inr ?cells"
    by (simp add: snap_to_grid_def py_round_div_def translate_def rect_def)
  have b: "resolve_each block_boundary 20 ?cells [0..<1] = ?cells"
    by code_simp
  have r: "resolve_overlaps ?cells block_boundary 20
      = Inr [rect 100 100 200 200, rect 100 100 200 200, rect 280 0 480 1000,
             rect 500 0 700 1000]"
    by code_simp
  have only: "\<forall>other\<in>set (resolve_each block_boundary 20 ?cells [0..<1]).
      intersects (?cells ! 1) other \<longrightarrow> other = ?cells ! 1"
    unfolding b by (simp add: rect_def intersects_def)
  from coincident_cells_not_separated[OF s, of "rect 100 100 200 200" ?cells block_boundary]
  obtain r' where r': "resolve_overlaps ?cells block_boundary 20 = Inr r'"
    and loc: "\<forall>i<length ?cells.
                (\<forall>other\<in>set (resolve_each block_boundary 20 ?cells [0..<i]).
                    intersects (?cells ! i) other \<longrightarrow> other = ?cells ! i)
                \<longrightarrow> \<not> has_overlap (?cells ! i) (resolve_each block_boundary 20 ?cells [0..<i])
                    \<and> r' ! i = ?cells ! i"
    by blast
  have "(1::nat) < length ?cells" by simp
  with loc only have "\<not> has_overlap (?cells ! 1) (resolve_each block_boundary 20 ?cells [0..<1])"
    by blast
  then have "\<not> has_overlap (rect 100 100 200 200) ?cells"
    unfolding b by simp
  with s b r show ?thesis by (simp add: rect_def intersects_def)
qed

section \<open>A bound on the while loop\<close>

lemma run_loop_enough:
  "loop_measure ucs i c seen < n \<Longrightarrow>
     run_loop n block q i orig ucs c seen = Some (resolve_loop block q i orig ucs c seen)"
proof (induction block q i orig ucs c seen arbitrary: n rule: resolve_loop.induct)
  case (1 block q i orig ucs c seen)
  from "1.prems" obtain m where n: "n = Suc m" by (cases n) auto
  show ?case
  proof (cases "loop_body block q i orig ucs c seen")
    case (Continue ucs' c' seen')
    from loop_measure_decreases[OF this] "1.prems" n have "loop_measure ucs' i c' seen' < m"
      by simp
    from "1.IH"[OF Continue this] Continue show ?thesis
      unfolding n by (subst resolve_loop.simps) simp
  next
    case (Exit how cells)
    then show ?thesis unfolding n by (subst resolve_loop.simps) simp
  qed
qed

lemma card_direction: "card (UNIV :: direction set) = 4"
proof -
  have eq: "(UNIV :: direction set) = {Left, Right, Up, Down}"
    using direction.exhaust by auto
  show ?thesis unfolding eq by simp
qed

lemma loop_measure_start:
  "loop_measure ucs i (ucs ! i) {} = 4 * card (near (ucs ! i) (others_at ucs i))"
  by (simp add: loop_measure_def unseen_def card_cartesian_product card_direction)

text \<open>
  C5. For a positive quantum \<open>resolve_overlaps\<close> returns a list. The while loop of the
  cell at index \<open>i\<close> ends within \<open>4 * N + 1\<close> evaluations of its condition, where \<open>N\<close>
  is the number of positions at which a rectangle of the cell's width and height touches
  one of the other cells: each turn that does not end the loop puts a new pair of such
  a position and one of the four directions into the memo set. This holds for every
  boundary and every working set, also when the cell has no legal position at all.
\<close>

theorem resolve_overlaps_terminates:
  assumes "0 < q"
  shows "(\<exists>r. resolve_overlaps cells block q = Inr r)
     \<and> run_loop (Suc (4 * card (near (ucs ! i) (others_at ucs i)))) block q i
         (ucs ! i) ucs (ucs ! i) {} = Some (resolve_cell block q ucs i)"
proof -
  from assms snap_all_total[of q cells] obtain snapped where "snap_all cells q = Inr snapped"
    by auto
  then have "\<exists>r. resolve_overlaps cells block q = Inr r"
    by (simp add: resolve_overlaps_def)
  moreover have "loop_measure ucs i (ucs ! i) {} < Suc (4 * card (near (ucs ! i) (others_at ucs i)))"
    by (simp add: loop_measure_start)
  from run_loop_enough[OF this]
  have "run_loop (Suc (4 * card (near (ucs ! i) (others_at ucs i)))) block q i
         (ucs ! i) ucs (ucs ! i) {} = Some (resolve_cell block q ucs i)"
    by (simp add: resolve_cell_def)
  ultimately show ?thesis by blast
qed

theorem resolve_overlaps_terminates_witness:
  "(0::int) < 20
   \<and> resolve_overlaps [rect 400 0 600 1000, rect 500 0 700 1000, rect 100 0 300 1000]
        block_boundary 20
     = Inr [rect 400 0 600 1000, rect 620 0 820 1000, rect 100 0 300 1000]
   \<and> run_loop
       (Suc (4 * card (near ([rect 400 0 600 1000, rect 500 0 700 1000, rect 100 0 300 1000] ! 0)
          (others_at [rect 400 0 600 1000, rect 500 0 700 1000, rect 100 0 300 1000] 0))))
       block_boundary 20 0
       ([rect 400 0 600 1000, rect 500 0 700 1000, rect 100 0 300 1000] ! 0)
       [rect 400 0 600 1000, rect 500 0 700 1000, rect 100 0 300 1000]
       ([rect 400 0 600 1000, rect 500 0 700 1000, rect 100 0 300 1000] ! 0) {}
     = Some (Reverted, [rect 400 0 600 1000, rect 500 0 700 1000, rect 100 0 300 1000])
   \<and> run_loop 4 block_boundary 20 0 (rect 400 0 600 1000)
       [rect 400 0 600 1000, rect 500 0 700 1000, rect 100 0 300 1000]
       (rect 400 0 600 1000) {}
     = Some (Reverted, [rect 400 0 600 1000, rect 500 0 700 1000, rect 100 0 300 1000])"
proof -
  have q: "(0::int) < 20" by simp
  have r: "resolve_overlaps [rect 400 0 600 1000, rect 500 0 700 1000, rect 100 0 300 1000]
        block_boundary 20
     = Inr [rect 400 0 600 1000, rect 620 0 820 1000, rect 100 0 300 1000]"
    by code_simp
  have c: "resolve_cell block_boundary 20
       [rect 400 0 600 1000, rect 500 0 700 1000, rect 100 0 300 1000] 0
     = (Reverted, [rect 400 0 600 1000, rect 500 0 700 1000, rect 100 0 300 1000])"
    by code_simp
  have f: "run_loop 4 block_boundary 20 0 (rect 400 0 600 1000)
       [rect 400 0 600 1000, rect 500 0 700 1000, rect 100 0 300 1000]
       (rect 400 0 600 1000) {}
     = Some (Reverted, [rect 400 0 600 1000, rect 500 0 700 1000, rect 100 0 300 1000])"
    by code_simp
  from resolve_overlaps_terminates[OF q,
      of "[rect 400 0 600 1000, rect 500 0 700 1000, rect 100 0 300 1000]" block_boundary
         "[rect 400 0 600 1000, rect 500 0 700 1000, rect 100 0 300 1000]" 0]
  show ?thesis using r c f by simp
qed

section \<open>The displacement, in the words of the specification\<close>

lemma cost_min_least:
  "finite S \<Longrightarrow> cost_min (cost_min a (Finite x)) (least_cost S) = cost_min a (least_cost (insert x S))"
  by (cases a) (auto simp: least_cost_def min.commute)

lemma overlapping_Cons:
  "overlapping c (other # cells) =
     (if other \<noteq> c \<and> intersects c other then insert other (overlapping c cells)
      else overlapping c cells)"
  by (auto simp: overlapping_def)

lemma finite_overlapping: "finite (overlapping c cells)"
  by (simp add: overlapping_def)

lemma cost_min_Infinity_right: "cost_min a Infinity = a"
  by (cases a) simp_all

lemma scan_costs:
  "foldl (scan_other c q) d cells =
     \<lparr>left = cost_min (left d) (least_cost ((\<lambda>other. maxx c - minx other + q) ` overlapping c cells)),
      right = cost_min (right d) (least_cost ((\<lambda>other. maxx other - minx c + q) ` overlapping c cells)),
      up = cost_min (up d) (least_cost ((\<lambda>other. maxy other - miny c + q) ` overlapping c cells)),
      down = cost_min (down d) (least_cost ((\<lambda>other. maxy c - miny other + q) ` overlapping c cells))\<rparr>"
proof (induction cells arbitrary: d)
  case Nil
  then show ?case by (simp add: overlapping_def least_cost_def cost_min_Infinity_right)
next
  case (Cons other cells)
  show ?case
    by (simp only: foldl_Cons Cons.IH)
       (simp add: scan_other_def overlapping_Cons cost_min_least finite_overlapping)
qed

lemma below_zero_past_edge:
  "below_zero (minx c) k = past_edge c Left k"
  "below_zero (miny c) k = past_edge c Down k"
  "above (maxx c) k 1000 = past_edge c Right k"
  "above (maxy c) k 2000 = past_edge c Up k"
  by (cases k; simp add: translate_def)+

lemma get_clip:
  "get (clip_to_extent c d) dir =
     (if past_edge c dir (get d dir) then Infinity else get d dir)"
  by (cases dir) (simp_all add: clip_to_extent_def Let_def below_zero_past_edge)

lemma get_scanned:
  "get (foldl (scan_other c q)
     \<lparr>left = Infinity, right = Infinity, up = Infinity, down = Infinity\<rparr> cells) dir
   = separation c cells q dir"
  by (cases dir) (simp_all add: scan_costs)

lemma cost_less_irrefl: "\<not> cost_less a a"
  by (cases a) simp_all

lemma cost_less_trans: "cost_less a b \<Longrightarrow> cost_less b c \<Longrightarrow> cost_less a c"
  by (cases a; cases b; cases c) simp_all

lemma cost_less_linear: "cost_less a b \<or> a = b \<or> cost_less b a"
  by (cases a; cases b) auto

lemma min_key_least: "\<not> cost_less (get d k) (get d (min_key d))"
  by (cases "left d"; cases "right d"; cases "up d"; cases "down d"; cases k;
      simp add: min_key_def)

lemma min_key_first:
  "k \<in> set (takeWhile (\<lambda>x. x \<noteq> min_key d) [Left, Right, Up, Down]) \<Longrightarrow>
     get d k \<noteq> get d (min_key d)"
  by (cases "left d"; cases "right d"; cases "up d"; cases "down d";
      auto simp: min_key_def split: if_splits)

lemma get_computed:
  "get (clip_to_extent c (foldl (scan_other c q)
     \<lparr>left = Infinity, right = Infinity, up = Infinity, down = Infinity\<rparr> cells)) dir
   = edge_cost c cells q dir"
  by (simp add: get_clip get_scanned edge_cost_def)

lemma least_cost_member:
  assumes "finite S" and "least_cost S = Finite k"
  shows "k \<in> S"
proof -
  from assms(2) have "S \<noteq> {}" and "k = Min S"
    by (auto simp: least_cost_def split: if_splits)
  with assms(1) show ?thesis by (simp add: Min_in)
qed

lemma separation_at_least:
  assumes "separation c cells q dir = Finite k"
  shows "q \<le> k"
proof -
  have fin: "finite (f ` overlapping c cells)" for f :: "cell \<Rightarrow> int"
    by (simp add: finite_overlapping)
  from assms obtain other where "other \<in> overlapping c cells"
    and "k = (case dir of Left \<Rightarrow> maxx c - minx other + q | Right \<Rightarrow> maxx other - minx c + q
               | Up \<Rightarrow> maxy other - miny c + q | Down \<Rightarrow> maxy c - miny other + q)"
    by (cases dir) (auto dest!: least_cost_member[OF fin])
  then show ?thesis
    by (cases dir) (auto simp: overlapping_def intersects_def)
qed

lemma past_edge_within:
  assumes "within_extent c" and "0 \<le> k"
  shows "past_edge c dir (Finite k) = leaves_extent c dir (Finite k)"
  using assms by (cases dir) (auto simp: within_extent_def translate_def)

lemma edge_cost_claimed:
  assumes "within_extent c" and "0 \<le> q"
  shows "edge_cost c cells q dir = claimed_cost c cells q dir"
proof (cases "separation c cells q dir")
  case (Finite k)
  from separation_at_least[OF this] assms(2) have "0 \<le> k" by simp
  from past_edge_within[OF assms(1) this] Finite show ?thesis
    by (simp add: edge_cost_def claimed_cost_def)
next
  case Infinity
  then show ?thesis by (simp add: edge_cost_def claimed_cost_def)
qed

text \<open>
  C4, as stated, fails for a cell that is not inside the extent. The cell
  \<open>(895, 0), (1000, 100)\<close> lies in the block boundary and is snapped to
  \<open>(900, 0), (1005, 100)\<close>, 5 beyond the right edge of the extent. With the cell
  \<open>(800, 80), (1000, 120)\<close> on it, \<open>compute_displacement\<close> returns up with cost 140,
  though the position this move reaches is still outside the extent; by the claim the cost
  of up is infinite, and left, with cost 225, is the direction to return.
\<close>

theorem compute_displacement_extent_counterexample:
  "contains block_boundary (rect 895 0 1000 100)
   \<and> snap_all [rect 895 0 1000 100, rect 800 80 1000 120] 20
       = Inr [rect 900 0 1005 100, rect 800 80 1000 120]
   \<and> compute_displacement (rect 900 0 1005 100) block_boundary
        [rect 900 0 1005 100, rect 800 80 1000 120] 20 = (Up, Finite 140)
   \<and> \<not> within_extent (move (rect 900 0 1005 100) Up 140)
   \<and> claimed_cost (rect 900 0 1005 100) [rect 900 0 1005 100, rect 800 80 1000 120] 20 Up
       = Infinity
   \<and> claimed_cost (rect 900 0 1005 100) [rect 900 0 1005 100, rect 800 80 1000 120] 20 Left
       = Finite 225"
proof -
  let ?c = "rect 900 0 1005 100"
  let ?cells = "[rect 900 0 1005 100, rect 800 80 1000 120]"
  have cd: "compute_displacement ?c block_boundary ?cells 20 = (Up, Finite 140)"
    by code_simp
  have up: "separation ?c ?cells 20 Up = Finite 140"
    and left: "separation ?c ?cells 20 Left = Finite 225"
    by (simp_all add: get_scanned[symmetric] scan_other_def intersects_def rect_def)
  have "claimed_cost ?c ?cells 20 Up = Infinity"
    unfolding claimed_cost_def up by (simp add: within_extent_def translate_def rect_def)
  moreover have "claimed_cost ?c ?cells 20 Left = Finite 225"
    unfolding claimed_cost_def left by (simp add: within_extent_def translate_def rect_def)
  moreover have "\<not> within_extent (move ?c Up 140)"
    by (simp add: within_extent_def translate_def rect_def)
  moreover have "contains block_boundary (rect 895 0 1000 100)"
    by (simp add: contains_def block_boundary_def rect_def)
  moreover have "snap_all [rect 895 0 1000 100, rect 800 80 1000 120] 20 = Inr ?cells"
    by (simp add: snap_to_grid_def py_round_div_def translate_def rect_def)
  ultimately show ?thesis using cd by simp
qed

text \<open>
  C4, amended. \<open>compute_displacement\<close> returns a direction and its cost, where the cost
  of each direction is the least, over the other rectangles that intersect the cell, of
  the separation along that axis plus the quantum (infinite when no other rectangle
  intersects it), made infinite when the move would take the edge of the cell on the side
  of travel beyond the extent (left: \<open>x1 - cost < 0\<close>; right: \<open>x2 + cost > 1000\<close>; down:
  \<open>y1 - cost < 0\<close>; up: \<open>y2 + cost > 2000\<close>); no direction has a smaller cost than the
  returned one, and none of those before it in the order left, right, up, down has the
  same cost. For a cell inside the extent and a quantum that is not negative these costs
  are the ones of the claim: a direction is made infinite exactly when the position the
  move reaches is not inside the extent.
\<close>

theorem compute_displacement_spec:
  "\<exists>dir. compute_displacement c block cells q = (dir, edge_cost c cells q dir)
     \<and> (\<forall>d'. \<not> cost_less (edge_cost c cells q d') (edge_cost c cells q dir))
     \<and> (\<forall>d'\<in>set (takeWhile (\<lambda>x. x \<noteq> dir) [Left, Right, Up, Down]).
           edge_cost c cells q d' \<noteq> edge_cost c cells q dir)
     \<and> (within_extent c \<and> 0 \<le> q \<longrightarrow>
          (\<forall>d'. edge_cost c cells q d' = claimed_cost c cells q d'))"
proof -
  let ?D = "clip_to_extent c (foldl (scan_other c q)
     \<lparr>left = Infinity, right = Infinity, up = Infinity, down = Infinity\<rparr> cells)"
  have g: "get ?D d' = edge_cost c cells q d'" for d'
    by (rule get_computed)
  have 1: "compute_displacement c block cells q = (min_key ?D, edge_cost c cells q (min_key ?D))"
    by (simp add: compute_displacement_def Let_def g)
  have 2: "\<not> cost_less (edge_cost c cells q d') (edge_cost c cells q (min_key ?D))" for d'
    using min_key_least[of ?D d'] by (simp add: g)
  have 3: "edge_cost c cells q d' \<noteq> edge_cost c cells q (min_key ?D)"
    if "d' \<in> set (takeWhile (\<lambda>x. x \<noteq> min_key ?D) [Left, Right, Up, Down])" for d'
    using min_key_first[OF that] by (simp add: g)
  have 4: "edge_cost c cells q d' = claimed_cost c cells q d'"
    if "within_extent c" "0 \<le> q" for d'
    using that by (rule edge_cost_claimed)
  from 1 2 3 4 show ?thesis by blast
qed

theorem compute_displacement_spec_witness:
  "compute_displacement (rect 200 0 1000 1000) block_boundary
      [rect 0 0 190 1000, rect 200 0 1000 1000, rect 900 0 1000 1000] 20 = (Left, Finite 120)
   \<and> edge_cost (rect 200 0 1000 1000)
        [rect 0 0 190 1000, rect 200 0 1000 1000, rect 900 0 1000 1000] 20 Left = Finite 120
   \<and> within_extent (rect 200 0 1000 1000) \<and> (0::int) \<le> 20
   \<and> claimed_cost (rect 200 0 1000 1000)
        [rect 0 0 190 1000, rect 200 0 1000 1000, rect 900 0 1000 1000] 20 Left = Finite 120
   \<and> \<not> cost_less (edge_cost (rect 200 0 1000 1000)
        [rect 0 0 190 1000, rect 200 0 1000 1000, rect 900 0 1000 1000] 20 Right) (Finite 120)"
proof -
  let ?c = "rect 200 0 1000 1000"
  let ?cells = "[rect 0 0 190 1000, rect 200 0 1000 1000, rect 900 0 1000 1000]"
  have cd: "compute_displacement ?c block_boundary ?cells 20 = (Left, Finite 120)"
    by code_simp
  from compute_displacement_spec[of ?c block_boundary ?cells 20]
  obtain dir where d: "compute_displacement ?c block_boundary ?cells 20
        = (dir, edge_cost ?c ?cells 20 dir)"
    and least: "\<And>d'. \<not> cost_less (edge_cost ?c ?cells 20 d') (edge_cost ?c ?cells 20 dir)"
    and ext: "within_extent ?c \<and> (0::int) \<le> 20 \<longrightarrow>
          (\<forall>d'. edge_cost ?c ?cells 20 d' = claimed_cost ?c ?cells 20 d')"
    by blast
  from d cd have dir: "dir = Left" and sc: "edge_cost ?c ?cells 20 Left = Finite 120"
    by simp_all
  have w: "within_extent ?c" by (simp add: within_extent_def rect_def)
  have q: "(0::int) \<le> 20" by simp
  from ext w q have "edge_cost ?c ?cells 20 Left = claimed_cost ?c ?cells 20 Left"
    by blast
  with sc have "claimed_cost ?c ?cells 20 Left = Finite 120" by simp
  moreover from least[of Right] have "\<not> cost_less (edge_cost ?c ?cells 20 Right) (Finite 120)"
    by (simp add: dir sc)
  ultimately show ?thesis using cd sc w by simp
qed

section \<open>The caller's list\<close>

lemma example_resolved:
  "resolve_overlaps [rect 50 50 150 90, rect 140 60 260 120] block_boundary 20
     = Inr [rect 20 40 120 80, rect 140 60 260 120]"
  by code_simp

lemma resolve_overlaps_heap_run:
  assumes "objects h cells = Some cs" and "resolve_overlaps cs block q = Inr final"
  shows "resolve_overlaps_heap h cells block q =
     Inr (h\<lparr>objects := (objects h)(next_ref h \<mapsto> final), next_ref := Suc (next_ref h)\<rparr>,
          next_ref h)"
  using assms
  by (auto simp: resolve_overlaps_heap_def resolve_overlaps_def alloc_def store_list_def
      split: sum.splits)

lemma example_heap_run:
  "resolve_overlaps_heap caller_heap 0 block_boundary 20 = Inr (heap_after, 1)"
proof -
  have "objects caller_heap 0 = Some [rect 50 50 150 90, rect 140 60 260 120]"
    by (simp add: caller_heap_def)
  from resolve_overlaps_heap_run[OF this example_resolved] show ?thesis
    by (simp add: caller_heap_def heap_after_def)
qed

text \<open>
  C8, as stated, fails: after the call the caller's list object still holds the two input
  cells; the final positions, of which the first differs, are in the new list object 1
  that the call returns.
\<close>

theorem input_list_mutated_counterexample:
  "resolve_overlaps_heap caller_heap 0 block_boundary 20 = Inr (heap_after, 1)
   \<and> objects caller_heap 0 = Some [rect 50 50 150 90, rect 140 60 260 120]
   \<and> objects heap_after 0 = Some [rect 50 50 150 90, rect 140 60 260 120]
   \<and> objects heap_after 1 = Some [rect 20 40 120 80, rect 140 60 260 120]
   \<and> [rect 50 50 150 90, rect 140 60 260 120] \<noteq> [rect 20 40 120 80, rect 140 60 260 120]"
  using example_heap_run by (simp add: caller_heap_def heap_after_def rect_def)

text \<open>
  C8, amended. \<open>resolve_overlaps\<close> leaves the caller's list object, and every other list
  object that existed before the call, as it was; it returns a reference to a new list
  object, which holds the final positions.
\<close>

theorem resolve_overlaps_returns_new_list:
  assumes "heap_ok h" and "objects h cells = Some cs"
    and "resolve_overlaps_heap h cells block q = Inr (h', out)"
  shows "out \<noteq> cells \<and> objects h' cells = Some cs
     \<and> (\<forall>r. r \<noteq> out \<longrightarrow> objects h' r = objects h r)
     \<and> objects h out = None
     \<and> (\<exists>final. resolve_overlaps cs block q = Inr final \<and> objects h' out = Some final)"
proof -
  from assms(3) assms(2) obtain snapped where s: "snap_all cs q = Inr snapped"
    by (auto simp: resolve_overlaps_heap_def split: sum.splits)
  with assms(2,3) have out: "out = next_ref h"
    and h': "h' = store_list (fst (alloc h snapped)) (next_ref h)
                    (resolve_each block q snapped [0..<length snapped])"
    by (auto simp: resolve_overlaps_heap_def alloc_def)
  from assms(1,2) have "cells < next_ref h" by (auto simp: heap_ok_def)
  moreover from assms(1) have "objects h (next_ref h) = None"
    by (auto simp: heap_ok_def)
  moreover have "resolve_overlaps cs block q
      = Inr (resolve_each block q snapped [0..<length snapped])"
    by (simp add: resolve_overlaps_def s)
  ultimately show ?thesis using assms(2)
    by (simp add: out h' store_list_def alloc_def)
qed

theorem resolve_overlaps_returns_new_list_witness:
  "heap_ok caller_heap
   \<and> objects caller_heap 0 = Some [rect 50 50 150 90, rect 140 60 260 120]
   \<and> resolve_overlaps_heap caller_heap 0 block_boundary 20 = Inr (heap_after, 1)
   \<and> (1::nat) \<noteq> 0
   \<and> objects heap_after 0 = Some [rect 50 50 150 90, rect 140 60 260 120]
   \<and> objects caller_heap 1 = None"
proof -
  have ok: "heap_ok caller_heap" by (simp add: heap_ok_def caller_heap_def)
  have c: "objects caller_heap 0 = Some [rect 50 50 150 90, rect 140 60 260 120]"
    by (simp add: caller_heap_def)
  from resolve_overlaps_returns_new_list[OF ok c example_heap_run] ok c example_heap_run
  show ?thesis by simp
qed

end
